theory Spec2Isabelle
  imports Main "HOL-Library.Char_ord" "HOL-Library.List_Lexorder" "HOL-Library.Word"
begin

section \<open>Path utilities of \<^verbatim>\<open>include/dbus_utility.hpp\<close>\<close>

subsection \<open>\<^verbatim>\<open>escapePathForDbus\<close>: the regular expression and the in-place replacement\<close>

text \<open>
  The source is
  \<^verbatim>\<open>const std::regex reg("[^A-Za-z0-9_/]");\<close>
  \<^verbatim>\<open>std::regex_replace(path.begin(), path.begin(), path.end(), reg, "_");\<close>
  The expression is one negated bracket of three ranges and two characters, so a match is
  always exactly one byte. Ranges compare byte values; a byte above 127 lies in none of them.
\<close>

definition in_class :: "char \<Rightarrow> bool" where
  "in_class c \<longleftrightarrow>
     (CHR ''A'' \<le> c \<and> c \<le> CHR ''Z'') \<or> (CHR ''a'' \<le> c \<and> c \<le> CHR ''z'') \<or>
     (CHR ''0'' \<le> c \<and> c \<le> CHR ''9'') \<or> c = CHR ''_'' \<or> c = CHR ''/''"

definition reg :: "char \<Rightarrow> bool" where
  "reg c \<longleftrightarrow> \<not> in_class c"

text \<open>
  The first argument of \<^verbatim>\<open>regex_replace\<close> is the position the output is written to, the second
  and the third delimit the text that is searched. All three point into the same string, so
  the string is modelled as a buffer and the iterators as indices into it. \<open>regex_search buf first fin\<close> is the position
  of the leftmost match of \<open>reg\<close> in the range \<open>[first, fin)\<close> of the buffer as it is now.
\<close>

definition regex_search :: "char list \<Rightarrow> nat \<Rightarrow> nat \<Rightarrow> nat option" where
  "regex_search buf first fin = find (\<lambda>k. reg (buf ! k)) [first..<fin]"

text \<open>
  \<^verbatim>\<open>std::copy(first, fin, out)\<close> writes through \<open>out\<close> element by element, front to back,
  into the buffer it reads from, and returns the advanced output position. The call in
  \<open>escapePathForDbus\<close> copies ranges onto themselves, which the standard leaves outside the
  contract of \<^verbatim>\<open>std::copy\<close>; the model takes the front-to-back assignment that the library
  performs, under which such a copy changes nothing.
\<close>

function copy :: "char list \<Rightarrow> nat \<Rightarrow> nat \<Rightarrow> nat \<Rightarrow> char list \<times> nat" where
  "copy buf first fin out =
     (if first < fin then copy (buf[out := buf ! first]) (Suc first) fin (Suc out)
      else (buf, out))"
  by pat_completeness auto
termination
  by (relation "measure (\<lambda>(buf, first, fin, out). fin - first)") auto

declare copy.simps [simp del]

lemma regex_search_Some:
  "regex_search buf first fin = Some m \<Longrightarrow>
     first \<le> m \<and> m < fin \<and> reg (buf ! m) \<and> (\<forall>k. first \<le> k \<and> k < m \<longrightarrow> \<not> reg (buf ! k))"
proof -
  assume "regex_search buf first fin = Some m"
  then obtain i where i: "i < fin - first" "reg (buf ! ([first..<fin] ! i))" "m = [first..<fin] ! i"
    "\<forall>j<i. \<not> reg (buf ! ([first..<fin] ! j))"
    unfolding regex_search_def find_Some_iff by auto
  from i(1,3) have m: "m = first + i" by simp
  have "\<not> reg (buf ! k)" if "first \<le> k" "k < m" for k
  proof -
    from that m have "k - first < i" by arith
    with i(4) have "\<not> reg (buf ! ([first..<fin] ! (k - first)))" by blast
    moreover from that m i(1) have "[first..<fin] ! (k - first) = k" by simp
    ultimately show ?thesis by simp
  qed
  with i m show ?thesis by auto
qed

lemma regex_search_None:
  "regex_search buf first fin = None \<Longrightarrow> first \<le> k \<Longrightarrow> k < fin \<Longrightarrow> \<not> reg (buf ! k)"
  unfolding regex_search_def find_None_iff by auto

text \<open>
  \<^verbatim>\<open>std::regex_replace(out, first, fin, reg, "_")\<close>: for every match in turn, the text between
  the previous match and this one is copied to \<open>out\<close>, then the replacement \<^verbatim>\<open>"_"\<close> is written
  to \<open>out\<close>; the search for the next match resumes behind the match; after the last match the
  remaining text is copied. The advanced output position is returned with the buffer.
\<close>

function regex_replace :: "char list \<Rightarrow> nat \<Rightarrow> nat \<Rightarrow> nat \<Rightarrow> char list \<times> nat" where
  "regex_replace buf out first fin =
     (case regex_search buf first fin of
        None \<Rightarrow> copy buf first fin out
      | Some m \<Rightarrow>
          (case copy buf first m out of
             (buf1, out1) \<Rightarrow> regex_replace (buf1[out1 := CHR ''_'']) (Suc out1) (Suc m) fin))"
  by pat_completeness auto
termination
  by (relation "measure (\<lambda>(buf, out, first, fin). fin - first)")
     (auto dest!: regex_search_Some)

declare regex_replace.simps [simp del]

text \<open>
  \<open>escapePathForDbus\<close> takes the string by reference and returns nothing: the value below is
  the content of \<open>path\<close> after the call. \<^verbatim>\<open>path.begin()\<close> is index 0 and \<^verbatim>\<open>path.end()\<close> is
  \<open>length path\<close>; the iterator that \<^verbatim>\<open>regex_replace\<close> returns is dropped.
\<close>

definition escapePathForDbus :: "string \<Rightarrow> string" where
  "escapePathForDbus path = fst (regex_replace path 0 0 (length path))"

subsection \<open>\<^verbatim>\<open>std::filesystem::path\<close>: elements, \<^verbatim>\<open>has_filename\<close> and \<^verbatim>\<open>stem\<close>\<close>

text \<open>
  \<open>getNthStringFromPath\<close> walks a \<^verbatim>\<open>std::filesystem::path\<close>. The library is not part of the
  repository; what the function uses of it is written here after the C++ standard, for the
  generic (POSIX) pathname format, where the only separator is \<^verbatim>\<open>/\<close> and no root name exists.
\<close>

type_synonym int32 = "32 word"

definition is_dir_sep :: "char \<Rightarrow> bool" where
  "is_dir_sep c \<longleftrightarrow> c = CHR ''/''"

text \<open>
  The file names of a relative path, in order: maximal runs of characters other than the
  separator; a run of separators counts once; a separator behind the last file name gives one
  empty element at the end.
\<close>

function names :: "string \<Rightarrow> string list" where
  "names s =
     (if s = [] then []
      else let name = takeWhile (\<lambda>c. \<not> is_dir_sep c) s;
               rest = dropWhile (\<lambda>c. \<not> is_dir_sep c) s
           in if rest = [] then [name]
              else if dropWhile is_dir_sep rest = [] then [name, []]
              else name # names (dropWhile is_dir_sep rest))"
  by pat_completeness auto
termination
proof (relation "measure length", goal_cases)
  case 1
  show ?case by simp
next
  case (2 s name rest)
  then have "rest \<noteq> []" "rest = dropWhile (\<lambda>c. \<not> is_dir_sep c) s" by simp_all
  then have "is_dir_sep (hd rest)" using hd_dropWhile by (metis (mono_tags, lifting))
  with \<open>rest \<noteq> []\<close> have "length (dropWhile is_dir_sep rest) < length rest"
    by (cases rest) (simp_all add: le_imp_less_Suc length_dropWhile_le)
  moreover have "length rest \<le> length s" using 2 by (simp add: length_dropWhile_le)
  ultimately show ?case by simp
qed

declare names.simps [simp del]

text \<open>
  Iterating a path yields the root directory \<^verbatim>\<open>/\<close> first when the pathname starts with a
  separator, then the file names of the relative path behind it. A pathname that consists of
  separators only is a root directory as a whole, and iterating it yields that pathname
  itself as its one element.
\<close>

definition path_elements :: "string \<Rightarrow> string list" where
  "path_elements p =
     (if p \<noteq> [] \<and> dropWhile is_dir_sep p = [] then [p]
      else (if p \<noteq> [] \<and> is_dir_sep (hd p) then [''/''] else []) @
           names (dropWhile is_dir_sep p))"

text \<open>
  \<^verbatim>\<open>filename()\<close> is the last element of the relative path, or empty when the relative path is
  empty; \<^verbatim>\<open>has_filename()\<close> is \<^verbatim>\<open>!filename().empty()\<close>. \<^verbatim>\<open>stem()\<close> is the file name itself when
  it is \<^verbatim>\<open>.\<close> or \<^verbatim>\<open>..\<close> or has no period other than a leading one, and otherwise the part of the
  file name before its last period.
\<close>

definition filename :: "string \<Rightarrow> string" where
  "filename p = (case names (dropWhile is_dir_sep p) of [] \<Rightarrow> [] | e # es \<Rightarrow> last (e # es))"

definition has_filename :: "string \<Rightarrow> bool" where
  "has_filename p \<longleftrightarrow> filename p \<noteq> []"

definition stem :: "string \<Rightarrow> string" where
  "stem p =
     (let f = filename p
      in if f = ''.'' \<or> f = ''..'' \<or> CHR ''.'' \<notin> set (tl f) then f
         else rev (tl (dropWhile (\<lambda>c. c \<noteq> CHR ''.'') (rev f))))"

subsection \<open>\<^verbatim>\<open>getNthStringFromPath\<close>\<close>

text \<open>
  The range-based \<^verbatim>\<open>for\<close> loop over the elements of \<^verbatim>\<open>p1\<close>, with the loop variables \<open>count\<close>
  and \<open>result\<close>. \<open>count\<close> is a 32-bit \<^verbatim>\<open>int\<close> and \<^verbatim>\<open>++count\<close> is addition on the machine
  word; the \<^verbatim>\<open>break\<close> leaves the loop with the values it has then.
\<close>

fun scan :: "string list \<Rightarrow> int32 \<Rightarrow> int32 \<Rightarrow> string \<Rightarrow> int32 \<times> string" where
  "scan [] index count result = (count, result)"
| "scan (element # rest) index count result =
     (if has_filename element
      then let count1 = count + 1
           in if count1 = index then (count1, stem element)
              else scan rest index count1 result
      else scan rest index count result)"

text \<open>
  The function returns a \<^verbatim>\<open>bool\<close> and writes through the reference \<open>result\<close>: the model
  returns the pair of the return value and the content of \<open>result\<close> after the call. The
  comparisons are those of signed 32-bit integers.
\<close>

definition getNthStringFromPath :: "string \<Rightarrow> int32 \<Rightarrow> string \<Rightarrow> bool \<times> string" where
  "getNthStringFromPath path index result =
     (if index <s 0 then (False, result)
      else case scan (path_elements path) index (- 1) result of
             (count, result1) \<Rightarrow> if count <s index then (False, result1) else (True, result1))"

section \<open>The object mapper gateway and the association resolver\<close>

subsection \<open>Requests, replies and the bus\<close>

text \<open>
  \<^verbatim>\<open>boost::system::error_code\<close> is read through its conversion to \<^verbatim>\<open>bool\<close> only: it is its
  integer value, and \<^verbatim>\<open>if (ec)\<close> is \<open>ec \<noteq> 0\<close>. An object path converts to and from a string.
  A request is what the source hands to the connection: service, object path, interface and
  method with the arguments, or service, object path, interface and property.
\<close>

type_synonym error_code = int

datatype arg = Str string | Int32 int32 | StrArray "string list"

datatype request =
    MethodCall string string string string "arg list"
  | GetProperty string string string string

type_synonym MapperGetObject = "(string \<times> string list) list"
type_synonym MapperServiceMap = "(string \<times> string list) list"
type_synonym MapperGetSubTreeResponse = "(string \<times> MapperServiceMap) list"
type_synonym MapperGetSubTreePathsResponse = "string list"
type_synonym MapperEndPoints = "string list"

text \<open>
  The bus and the mapper behind it are the environment. A reply is unpacked to the argument
  types of the handler that receives it, so the bus gives one answer per handler signature.
\<close>

record bus =
  reply_GetObject :: "request \<Rightarrow> error_code \<times> MapperGetObject"
  reply_SubTree :: "request \<Rightarrow> error_code \<times> MapperGetSubTreeResponse"
  reply_Paths :: "request \<Rightarrow> error_code \<times> string list"

subsection \<open>Callbacks and the connection\<close>

text \<open>
  What can be observed of an execution: a request handed to the connection, the reply to a
  request arriving at its handler, and a call of the callback that the caller of an
  operation supplied, with its arguments.
\<close>

datatype event =
    Call request
  | Reply request
  | ExistsResult bool
  | SubTreeResult error_code MapperGetSubTreeResponse
  | PathsResult error_code MapperGetSubTreePathsResponse

text \<open>
  Every callback of signature \<^verbatim>\<open>void(const error_code&, const std::vector<std::string>&)\<close> is
  a closure: the lambda it comes from together with the values it captured. \<open>Caller\<close> is
  the callback passed in from outside; \<open>SubTreePathsReply\<close> and \<open>EndPointsReply\<close> are the
  reply handlers inside \<open>getSubTreePaths\<close> and \<open>getAssociationEndPoints\<close>; \<open>Validate\<close> is
  the lambda of \<open>validateAssociatedSubTreePaths\<close>, \<open>Associated\<close> and \<open>Forward\<close> are the outer
  and the inner lambda of \<open>getAssociatedSubTreePaths\<close>. The bodies are in \<open>invoke\<close> below.
  The reply handlers of \<open>checkDbusPathExists\<close> and \<open>getSubTree\<close> capture the outside
  callback only.
\<close>

datatype callback =
    Caller
  | SubTreePathsReply callback
  | EndPointsReply callback
  | Validate string MapperEndPoints string int32 "string list" callback
  | Associated string string int32 "string list" callback
  | Forward callback

datatype handler = PathsHandler callback | GetObjectHandler | SubTreeHandler

text \<open>
  \<^verbatim>\<open>async_method_call\<close> and \<^verbatim>\<open>getProperty\<close> return at once; the handler waits for the reply.
  The state of the connection is the list of requests that wait, each with its handler,
  next to the trace of what has happened.
\<close>

record state =
  trace :: "event list"
  pending :: "(request \<times> handler) list"

definition init :: state where
  "init = \<lparr>trace = [], pending = []\<rparr>"

definition async_method_call ::
  "handler \<Rightarrow> string \<Rightarrow> string \<Rightarrow> string \<Rightarrow> string \<Rightarrow> arg list \<Rightarrow> state \<Rightarrow> state" where
  "async_method_call h service objpath interf method args st =
     st\<lparr>trace := trace st @ [Call (MethodCall service objpath interf method args)],
        pending := pending st @ [(MethodCall service objpath interf method args, h)]\<rparr>"

definition getProperty ::
  "string \<Rightarrow> string \<Rightarrow> string \<Rightarrow> string \<Rightarrow> handler \<Rightarrow> state \<Rightarrow> state" where
  "getProperty service objpath interf propertyName h st =
     st\<lparr>trace := trace st @ [Call (GetProperty service objpath interf propertyName)],
        pending := pending st @ [(GetProperty service objpath interf propertyName, h)]\<rparr>"

subsection \<open>The four operations on the mapper\<close>

definition checkDbusPathExists :: "string \<Rightarrow> state \<Rightarrow> state" where
  "checkDbusPathExists path =
     async_method_call GetObjectHandler
       ''xyz.openbmc_project.ObjectMapper''
       ''/xyz/openbmc_project/object_mapper''
       ''xyz.openbmc_project.ObjectMapper'' ''GetObject'' [Str path, StrArray []]"

definition getSubTree :: "string \<Rightarrow> int32 \<Rightarrow> string list \<Rightarrow> state \<Rightarrow> state" where
  "getSubTree path depth interfaces =
     async_method_call SubTreeHandler
       ''xyz.openbmc_project.ObjectMapper''
       ''/xyz/openbmc_project/object_mapper''
       ''xyz.openbmc_project.ObjectMapper'' ''GetSubTree''
       [Str path, Int32 depth, StrArray interfaces]"

definition getSubTreePaths ::
  "string \<Rightarrow> int32 \<Rightarrow> string list \<Rightarrow> callback \<Rightarrow> state \<Rightarrow> state" where
  "getSubTreePaths path depth interfaces callback =
     async_method_call (PathsHandler (SubTreePathsReply callback))
       ''xyz.openbmc_project.ObjectMapper''
       ''/xyz/openbmc_project/object_mapper''
       ''xyz.openbmc_project.ObjectMapper'' ''GetSubTreePaths''
       [Str path, Int32 depth, StrArray interfaces]"

definition getAssociationEndPoints :: "string \<Rightarrow> callback \<Rightarrow> state \<Rightarrow> state" where
  "getAssociationEndPoints path callback =
     getProperty ''xyz.openbmc_project.ObjectMapper'' path
       ''xyz.openbmc_project.Association'' ''endpoints''
       (PathsHandler (EndPointsReply callback))"

subsection \<open>\<open>getAssociatedSubTreePaths\<close>\<close>

definition validateAssociatedSubTreePaths ::
  "string \<Rightarrow> MapperEndPoints \<Rightarrow> string \<Rightarrow> int32 \<Rightarrow> string list \<Rightarrow> callback \<Rightarrow> state \<Rightarrow> state" where
  "validateAssociatedSubTreePaths associatedPath endpoints path depth interfaces callback =
     getSubTreePaths path depth interfaces
       (Validate associatedPath endpoints path depth interfaces callback)"

definition getAssociatedSubTreePaths ::
  "string \<Rightarrow> string \<Rightarrow> int32 \<Rightarrow> string list \<Rightarrow> callback \<Rightarrow> state \<Rightarrow> state" where
  "getAssociatedSubTreePaths associatedPath path depth interfaces callback =
     getAssociationEndPoints associatedPath
       (Associated associatedPath path depth interfaces callback)"

text \<open>
  The loop over \<open>subtreePaths\<close> in the handler of \<open>validateAssociatedSubTreePaths\<close>:
  \<open>endpointSet\<close> is the \<^verbatim>\<open>std::set\<close> built from \<open>endpoints\<close>, and a path found in it is
  appended to \<open>associatedSubtreePaths\<close>.
\<close>

fun emplace_matching :: "string set \<Rightarrow> string list \<Rightarrow> string list \<Rightarrow> string list" where
  "emplace_matching endpointSet [] associatedSubtreePaths = associatedSubtreePaths"
| "emplace_matching endpointSet (objectPath # rest) associatedSubtreePaths =
     emplace_matching endpointSet rest
       (if objectPath \<in> endpointSet then associatedSubtreePaths @ [objectPath]
        else associatedSubtreePaths)"

text \<open>
  Calling a callback runs the body of its lambda. \<^verbatim>\<open>std::sort\<close> on strings leaves the
  ascending rearrangement, in the order of \<^verbatim>\<open>std::string::operator<\<close>: bytes compare as
  unsigned values and a proper prefix comes first, which is the order on \<open>string\<close> here.
\<close>

fun invoke :: "callback \<Rightarrow> error_code \<Rightarrow> string list \<Rightarrow> state \<Rightarrow> state" where
  "invoke Caller ec paths st = st\<lparr>trace := trace st @ [PathsResult ec paths]\<rparr>"
| "invoke (SubTreePathsReply callback) ec subtreePaths st = invoke callback ec subtreePaths st"
| "invoke (EndPointsReply callback) ec endpoints st = invoke callback ec endpoints st"
| "invoke (Validate associatedPath endpoints path depth interfaces callback) ec subtreePaths st =
     (if ec \<noteq> 0 \<or> subtreePaths = [] then invoke callback ec [] st
      else invoke callback ec (sort (emplace_matching (set endpoints) subtreePaths [])) st)"
| "invoke (Associated associatedPath path depth interfaces callback) ec endpoints st =
     (if ec \<noteq> 0 \<or> endpoints = [] then invoke callback ec [] st
      else validateAssociatedSubTreePaths associatedPath endpoints path depth interfaces
             (Forward callback) st)"
| "invoke (Forward callback) ec subtreePaths st = invoke callback ec subtreePaths st"

subsection \<open>Delivery of replies\<close>

text \<open>
  The event loop takes one of the waiting requests, removes it, and calls its handler with
  the reply of the bus. The handler of \<open>checkDbusPathExists\<close> calls
  \<^verbatim>\<open>callback(!ec && objectNames.size() != 0)\<close>, the handler of \<open>getSubTree\<close> passes its
  arguments on. A schedule lists which waiting request is served at each step; a step that
  names no waiting request changes nothing.
\<close>

definition deliver :: "bus \<Rightarrow> nat \<Rightarrow> state \<Rightarrow> state" where
  "deliver b i st =
     (if i < length (pending st)
      then case pending st ! i of
        (req, h) \<Rightarrow>
          let st1 = st\<lparr>trace := trace st @ [Reply req],
                       pending := take i (pending st) @ drop (Suc i) (pending st)\<rparr>
          in case h of
               PathsHandler callback \<Rightarrow>
                 (case reply_Paths b req of (ec, paths) \<Rightarrow> invoke callback ec paths st1)
             | GetObjectHandler \<Rightarrow>
                 (case reply_GetObject b req of
                    (ec, objectNames) \<Rightarrow>
                      st1\<lparr>trace := trace st1 @ [ExistsResult (\<not> ec \<noteq> 0 \<and> length objectNames \<noteq> 0)]\<rparr>)
             | SubTreeHandler \<Rightarrow>
                 (case reply_SubTree b req of
                    (ec, subtree) \<Rightarrow> st1\<lparr>trace := trace st1 @ [SubTreeResult ec subtree]\<rparr>)
      else st)"

definition run :: "bus \<Rightarrow> nat list \<Rightarrow> state \<Rightarrow> state" where
  "run b schedule st = foldl (\<lambda>s i. deliver b i s) st schedule"

section \<open>Vocabulary of the properties\<close>

text \<open>The character that escaping leaves in the place of \<open>c\<close>.\<close>

definition esc :: "char \<Rightarrow> char" where
  "esc c = (if in_class c then c else CHR ''_'')"

text \<open>
  The description of \<open>getNthStringFromPath\<close> in the specification: the path is cut at every
  \<^verbatim>\<open>/\<close> and the non-empty pieces are its segments, in order.
\<close>

fun split_slash :: "string \<Rightarrow> string list" where
  "split_slash [] = [[]]"
| "split_slash (c # cs) =
     (if c = CHR ''/'' then [] # split_slash cs
      else case split_slash cs of [] \<Rightarrow> [[c]] | x # xs \<Rightarrow> (c # x) # xs)"

definition segments :: "string \<Rightarrow> string list" where
  "segments path = filter (\<lambda>s. s \<noteq> []) (split_slash path)"

text \<open>
  The two requests of the resolver, the test for a subtree-paths query in a trace, and the
  states an invocation from \<open>init\<close> with the callback \<open>Caller\<close> passes through.
\<close>

definition endpoints_request :: "string \<Rightarrow> request" where
  "endpoints_request associatedPath =
     GetProperty ''xyz.openbmc_project.ObjectMapper'' associatedPath
       ''xyz.openbmc_project.Association'' ''endpoints''"

definition subtree_paths_request :: "string \<Rightarrow> int32 \<Rightarrow> string list \<Rightarrow> request" where
  "subtree_paths_request path depth interfaces =
     MethodCall ''xyz.openbmc_project.ObjectMapper'' ''/xyz/openbmc_project/object_mapper''
       ''xyz.openbmc_project.ObjectMapper'' ''GetSubTreePaths''
       [Str path, Int32 depth, StrArray interfaces]"

fun is_GetSubTreePaths :: "event \<Rightarrow> bool" where
  "is_GetSubTreePaths (Call (MethodCall service objpath interf method args)) =
     (method = ''GetSubTreePaths'')"
| "is_GetSubTreePaths (Call (GetProperty service objpath interf propertyName)) = False"
| "is_GetSubTreePaths (Reply req) = False"
| "is_GetSubTreePaths (ExistsResult found) = False"
| "is_GetSubTreePaths (SubTreeResult ec subtree) = False"
| "is_GetSubTreePaths (PathsResult ec paths) = False"

definition awaiting_endpoints :: "string \<Rightarrow> string \<Rightarrow> int32 \<Rightarrow> string list \<Rightarrow> state" where
  "awaiting_endpoints A R d ifs =
     \<lparr>trace = [Call (endpoints_request A)],
      pending = [(endpoints_request A,
                  PathsHandler (EndPointsReply (Associated A R d ifs Caller)))]\<rparr>"

definition awaiting_subtree ::
  "string \<Rightarrow> string list \<Rightarrow> string \<Rightarrow> int32 \<Rightarrow> string list \<Rightarrow> state" where
  "awaiting_subtree A eps R d ifs =
     \<lparr>trace = [Call (endpoints_request A), Reply (endpoints_request A),
               Call (subtree_paths_request R d ifs)],
      pending = [(subtree_paths_request R d ifs,
                  PathsHandler (SubTreePathsReply (Validate A eps R d ifs (Forward Caller))))]\<rparr>"

definition finished :: "event list \<Rightarrow> state" where
  "finished tr = \<lparr>trace = tr, pending = []\<rparr>"

definition endpoints_done :: "string \<Rightarrow> error_code \<Rightarrow> state" where
  "endpoints_done A ec =
     finished [Call (endpoints_request A), Reply (endpoints_request A), PathsResult ec []]"

definition subtree_done ::
  "string \<Rightarrow> string \<Rightarrow> int32 \<Rightarrow> string list \<Rightarrow> error_code \<Rightarrow> string list \<Rightarrow> state" where
  "subtree_done A R d ifs ec res =
     finished [Call (endpoints_request A), Reply (endpoints_request A),
               Call (subtree_paths_request R d ifs), Reply (subtree_paths_request R d ifs),
               PathsResult ec res]"

definition merged :: "error_code \<Rightarrow> string list \<Rightarrow> string list \<Rightarrow> string list" where
  "merged ec eps paths =
     (if ec \<noteq> 0 \<or> paths = [] then [] else sort (filter (\<lambda>p. p \<in> set eps) paths))"

definition pipeline_states ::
  "string \<Rightarrow> string \<Rightarrow> int32 \<Rightarrow> string list \<Rightarrow> error_code \<Rightarrow> string list \<Rightarrow> error_code \<Rightarrow> string list \<Rightarrow> state set" where
  "pipeline_states A R d ifs ec eps ec2 paths =
     (if ec \<noteq> 0 \<or> eps = [] then {awaiting_endpoints A R d ifs, endpoints_done A ec}
      else {awaiting_endpoints A R d ifs, awaiting_subtree A eps R d ifs,
            subtree_done A R d ifs ec2 (merged ec2 eps paths)})"

text \<open>A bus that answers every property read and every method call with fixed replies.\<close>

definition example_bus ::
  "error_code \<times> MapperGetObject \<Rightarrow> error_code \<times> string list \<Rightarrow> error_code \<times> string list \<Rightarrow> bus" where
  "example_bus objectReply endpointsReply subtreePathsReply =
     \<lparr>reply_GetObject = (\<lambda>req. objectReply),
      reply_SubTree = (\<lambda>req. (0, [])),
      reply_Paths = (\<lambda>req. case req of
          GetProperty service objpath interf propertyName \<Rightarrow> endpointsReply
        | MethodCall service objpath interf method args \<Rightarrow> subtreePathsReply)\<rparr>"

section \<open>Properties of the path utilities\<close>

subsection \<open>Escaping\<close>

lemma copy_onto_itself: "out = first \<Longrightarrow> first \<le> fin \<Longrightarrow> copy buf first fin out = (buf, fin)"
proof (induction buf first fin out rule: copy.induct)
  case (1 buf first fin out)
  show ?case
  proof (cases "first < fin")
    case True
    with "1" have "copy (buf[out := buf ! first]) (Suc first) fin (Suc out) = (buf, fin)"
      by simp
    with True show ?thesis by (subst copy.simps) simp
  next
    case False
    with "1.prems" show ?thesis by (subst copy.simps) simp
  qed
qed

text \<open>
  When the output position starts on the read position it stays there: every match has the
  length of its replacement. The range \<open>[p, fin)\<close> is escaped and the rest of the buffer is
  untouched.
\<close>

lemma regex_replace_in_place:
  "out = p \<Longrightarrow> p \<le> fin \<Longrightarrow> fin \<le> length buf \<Longrightarrow> regex_replace buf out p fin = (r, out') \<Longrightarrow>
   out' = fin \<and> length r = length buf \<and>
   (\<forall>k<length buf. r ! k = (if p \<le> k \<and> k < fin then esc (buf ! k) else buf ! k))"
proof (induction buf out p fin arbitrary: r out' rule: regex_replace.induct)
  case (1 buf out p fin)
  show ?case
  proof (cases "regex_search buf p fin")
    case None
    then have "regex_replace buf out p fin = copy buf p fin out"
      by (subst regex_replace.simps) simp
    with "1.prems" have "r = buf" "out' = fin"
      by (simp_all add: copy_onto_itself)
    moreover from None have "\<And>k. p \<le> k \<Longrightarrow> k < fin \<Longrightarrow> esc (buf ! k) = buf ! k"
      by (auto dest: regex_search_None simp: esc_def reg_def)
    ultimately show ?thesis by simp
  next
    case (Some m)
    note m = regex_search_Some [OF Some]
    let ?buf' = "buf[m := CHR ''_'']"
    from m "1.prems" have cp: "copy buf p m out = (buf, m)"
      by (simp add: copy_onto_itself)
    from Some cp have "regex_replace buf out p fin = regex_replace ?buf' (Suc m) (Suc m) fin"
      by (subst regex_replace.simps) simp
    with "1.prems" have rr: "regex_replace ?buf' (Suc m) (Suc m) fin = (r, out')"
      by simp
    from m "1.prems" have
      ih: "out' = fin \<and> length r = length ?buf' \<and>
        (\<forall>k<length ?buf'. r ! k = (if Suc m \<le> k \<and> k < fin then esc (?buf' ! k) else ?buf' ! k))"
      using "1.IH" [OF Some cp [symmetric] refl _ _ rr] by simp
    have "r ! k = (if p \<le> k \<and> k < fin then esc (buf ! k) else buf ! k)" if k: "k < length buf" for k
    proof -
      consider "k < p" | "p \<le> k" "k < m" | "k = m" | "m < k" by linarith
      then show ?thesis
      proof cases
        case 1 with ih k m show ?thesis by simp
      next
        case 2 with ih k m show ?thesis by (auto simp: esc_def reg_def)
      next
        case 3 with ih k m show ?thesis by (auto simp: esc_def reg_def)
      next
        case 4 with ih k m show ?thesis by simp
      qed
    qed
    with ih show ?thesis by simp
  qed
qed

lemma escapePathForDbus_map: "escapePathForDbus path = map esc path"
proof -
  obtain r out' where r: "regex_replace path 0 0 (length path) = (r, out')"
    by (cases "regex_replace path 0 0 (length path)")
  from regex_replace_in_place [OF refl _ _ r]
  have "length r = length path" "\<forall>k<length path. r ! k = esc (path ! k)" by simp_all
  then have "r = map esc path" by (intro nth_equalityI) simp_all
  with r show ?thesis by (simp add: escapePathForDbus_def)
qed

text \<open>
  C4. For every input string, the string left in \<open>path\<close> by \<open>escapePathForDbus\<close> has the
  length of the input; every character outside \<^verbatim>\<open>[A-Za-z0-9_/]\<close> has become \<^verbatim>\<open>_\<close> and every
  other character is unchanged. Escaping \<^verbatim>\<open>a/b c!d\<close> gives \<^verbatim>\<open>a/b_c_d\<close>.
\<close>

theorem escapePathForDbus_contract:
  "length (escapePathForDbus path) = length path \<and>
   escapePathForDbus path = map (\<lambda>c. if in_class c then c else CHR ''_'') path \<and>
   escapePathForDbus ''a/b c!d'' = ''a/b_c_d''"
proof (intro conjI)
  show "length (escapePathForDbus path) = length path"
    by (simp add: escapePathForDbus_map)
  show "escapePathForDbus path = map (\<lambda>c. if in_class c then c else CHR ''_'') path"
    by (simp add: escapePathForDbus_map esc_def)
  show "escapePathForDbus ''a/b c!d'' = ''a/b_c_d''"
    by code_simp
qed

subsection \<open>\<open>getNthStringFromPath\<close>: the elements that have a file name are the segments\<close>

lemma split_slash_not_Nil: "split_slash s \<noteq> []"
  by (induction s) (auto split: list.splits)

lemma segments_Nil: "segments [] = []"
  by (simp add: segments_def)

lemma segments_slash: "segments (CHR ''/'' # s) = segments s"
  by (simp add: segments_def)

lemma segments_dropWhile: "segments (dropWhile is_dir_sep s) = segments s"
  by (induction s) (simp_all add: segments_slash is_dir_sep_def)

lemma split_slash_name:
  "\<forall>c\<in>set name. \<not> is_dir_sep c \<Longrightarrow>
   split_slash (name @ rest) = (name @ hd (split_slash rest)) # tl (split_slash rest)"
proof (induction name)
  case Nil
  then show ?case by (simp add: split_slash_not_Nil)
next
  case (Cons c name)
  then show ?case
    by (cases "split_slash (name @ rest)") (simp_all add: is_dir_sep_def)
qed

lemma segments_name:
  assumes "\<forall>c\<in>set name. \<not> is_dir_sep c" "name \<noteq> []" "rest = [] \<or> is_dir_sep (hd rest)"
  shows "segments (name @ rest) = name # segments rest"
proof (cases rest)
  case Nil
  with assms show ?thesis by (simp add: segments_def split_slash_name [of name "[]", simplified])
next
  case (Cons c r)
  with assms have "c = CHR ''/''" by (simp add: is_dir_sep_def)
  with Cons assms show ?thesis
    by (simp add: segments_def split_slash_name)
qed

lemma names_Nil: "names [] = []"
  by (simp add: names.simps)

lemma names_single:
  assumes "\<forall>c\<in>set name. \<not> is_dir_sep c" "name \<noteq> []"
  shows "names name = [name]"
proof -
  from assms(1) have "takeWhile (\<lambda>c. \<not> is_dir_sep c) name = name"
    "dropWhile (\<lambda>c. \<not> is_dir_sep c) name = []" by simp_all
  with assms(2) show ?thesis by (subst names.simps) simp
qed

lemma has_filename_name:
  assumes "\<forall>c\<in>set name. \<not> is_dir_sep c" "name \<noteq> []"
  shows "filename name = name" "has_filename name"
proof -
  from assms have "dropWhile is_dir_sep name = name" by (cases name) simp_all
  with assms show "filename name = name" by (simp add: filename_def names_single)
  with assms show "has_filename name" by (simp add: has_filename_def)
qed

lemma has_filename_empty: "\<not> has_filename []"
  by (simp add: has_filename_def filename_def names_Nil)

lemma has_filename_root: "\<not> has_filename ''/''"
  by (simp add: has_filename_def filename_def names_Nil is_dir_sep_def)

lemma filter_names:
  "s = [] \<or> \<not> is_dir_sep (hd s) \<Longrightarrow> filter has_filename (names s) = segments s"
proof (induction s rule: names.induct)
  case (1 s)
  show ?case
  proof (cases "s = []")
    case True
    then show ?thesis by (simp add: names_Nil segments_Nil)
  next
    case False
    define name where "name = takeWhile (\<lambda>c. \<not> is_dir_sep c) s"
    define rest where "rest = dropWhile (\<lambda>c. \<not> is_dir_sep c) s"
    have s: "s = name @ rest" by (simp add: name_def rest_def)
    have free: "\<forall>c\<in>set name. \<not> is_dir_sep c"
      unfolding name_def by (auto dest: set_takeWhileD)
    from False "1.prems" have ne: "name \<noteq> []"
      unfolding name_def by (cases s) simp_all
    have rest: "rest = [] \<or> is_dir_sep (hd rest)"
      unfolding rest_def using hd_dropWhile [of "\<lambda>c. \<not> is_dir_sep c" s] by auto
    note hf = has_filename_name [OF free ne]
    have seg: "segments s = name # segments rest"
      unfolding s by (rule segments_name [OF free ne rest])
    have n: "names s =
      (if rest = [] then [name]
       else if dropWhile is_dir_sep rest = [] then [name, []]
       else name # names (dropWhile is_dir_sep rest))"
      unfolding name_def rest_def using False by (subst names.simps) (simp add: Let_def)
    show ?thesis
    proof (cases "rest = []")
      case True
      with n hf seg show ?thesis by (simp add: segments_Nil)
    next
      case r: False
      show ?thesis
      proof (cases "dropWhile is_dir_sep rest = []")
        case True
        have "segments rest = segments (dropWhile is_dir_sep rest)"
          by (simp add: segments_dropWhile)
        also have "\<dots> = []" unfolding True by (rule segments_Nil)
        finally have "segments rest = []" .
        moreover have "names s = [name, []]" using n by (simp only: r True if_True if_False refl)
        ultimately show ?thesis using hf seg by (simp add: has_filename_empty)
      next
        case d: False
        have "\<not> is_dir_sep (hd (dropWhile is_dir_sep rest))"
          using hd_dropWhile [OF d] .
        then have "filter has_filename (names (dropWhile is_dir_sep rest)) =
          segments (dropWhile is_dir_sep rest)"
          using "1.IH" [OF False name_def rest_def r d] by simp
        moreover have "names s = name # names (dropWhile is_dir_sep rest)"
          using n by (simp only: r d if_False)
        ultimately show ?thesis using hf seg by (simp add: segments_dropWhile)
      qed
    qed
  qed
qed

lemma has_filename_separators: "dropWhile is_dir_sep p = [] \<Longrightarrow> \<not> has_filename p"
  by (simp only: has_filename_def filename_def names_Nil list.case simp_thms)

lemma filter_path_elements: "filter has_filename (path_elements p) = segments p"
proof (cases "p \<noteq> [] \<and> dropWhile is_dir_sep p = []")
  case True
  then have d: "dropWhile is_dir_sep p = []" by (rule conjunct2)
  have "segments p = segments (dropWhile is_dir_sep p)" by (simp only: segments_dropWhile)
  also have "\<dots> = []" unfolding d by (rule segments_Nil)
  finally have "segments p = []" .
  moreover have "path_elements p = [p]"
    unfolding path_elements_def using True by (rule if_P)
  ultimately show ?thesis using has_filename_separators [OF d] by simp
next
  case False
  have "dropWhile is_dir_sep p = [] \<or> \<not> is_dir_sep (hd (dropWhile is_dir_sep p))"
    using hd_dropWhile [of is_dir_sep p] by auto
  then have "filter has_filename (names (dropWhile is_dir_sep p)) = segments p"
    by (simp add: filter_names segments_dropWhile)
  moreover have "path_elements p =
      (if p \<noteq> [] \<and> is_dir_sep (hd p) then [''/''] else []) @ names (dropWhile is_dir_sep p)"
    unfolding path_elements_def using False by (rule if_not_P)
  ultimately show ?thesis by (simp add: has_filename_root)
qed

lemma sint_increment:
  fixes count index :: int32
  assumes "sint count < sint index"
  shows "sint (count + 1) = sint count + 1"
proof -
  have "sint index < 2 ^ 31" using sint_lt [of index] by simp
  moreover have "- (2 ^ 31) \<le> sint count" using sint_ge [of count] by simp
  ultimately have "signed_take_bit 31 (sint count + 1) = sint count + 1"
    using assms by (intro signed_take_bit_int_eq_self) simp_all
  then show ?thesis by (simp add: sint_word_ariths)
qed

lemma scan_filter:
  "sint count < sint index \<Longrightarrow>
   scan es index count result =
     (let fs = filter has_filename es; n = nat (sint index - sint count - 1)
      in if n < length fs then (index, stem (fs ! n))
         else (count + of_nat (length fs), result))
   \<and> (nat (sint index - sint count - 1) \<ge> length (filter has_filename es) \<longrightarrow>
        sint (count + of_nat (length (filter has_filename es))) = sint count + int (length (filter has_filename es)))"
proof (induction es arbitrary: count)
  case Nil
  then show ?case by simp
next
  case (Cons e es)
  show ?case
  proof (cases "has_filename e")
    case False
    with Cons show ?thesis by simp
  next
    case True
    note inc = sint_increment [OF Cons.prems]
    show ?thesis
    proof (cases "count + 1 = index")
      case eq: True
      with inc have "nat (sint index - sint count - 1) = 0" by simp
      with True eq show ?thesis by (simp add: Let_def)
    next
      case neq: False
      then have "sint (count + 1) \<noteq> sint index"
        by (simp add: word_eq_iff_signed [where ?'a = int])
      with inc Cons.prems have lt: "sint (count + 1) < sint index" by simp
      from lt inc have n: "nat (sint index - sint count - 1) = Suc (nat (sint index - sint (count + 1) - 1))"
        by simp
      from Cons.IH [OF lt] True neq n inc show ?thesis
        by (simp add: Let_def add.assoc)
    qed
  qed
qed

text \<open>
  \<open>count\<close> never passes \<open>index\<close>, so the increment never wraps; the loop stops at the
  segment numbered \<open>index\<close> or runs out of segments below it.
\<close>

lemma getNthStringFromPath_eq:
  "getNthStringFromPath path index result =
     (if sint index < 0 \<or> int (length (segments path)) \<le> sint index then (False, result)
      else (True, stem (segments path ! nat (sint index))))"
proof (cases "sint index < 0")
  case True
  then show ?thesis by (simp add: getNthStringFromPath_def word_sless_alt)
next
  case False
  then have lt: "sint (- 1 :: int32) < sint index" by simp
  note sc = scan_filter [OF lt, of "path_elements path" result, unfolded filter_path_elements]
  show ?thesis
  proof (cases "int (length (segments path)) \<le> sint index")
    case True
    with False have "length (segments path) \<le> nat (sint index - sint (- 1 :: int32) - 1)" by simp
    with sc False True show ?thesis
      by (simp add: getNthStringFromPath_def word_sless_alt Let_def)
  next
    case ge: False
    with False have "nat (sint index - sint (- 1 :: int32) - 1) < length (segments path)" 
      "nat (sint index - sint (- 1 :: int32) - 1) = nat (sint index)" by simp_all
    with sc False ge show ?thesis
      by (simp add: getNthStringFromPath_def word_sless_alt Let_def)
  qed
qed

text \<open>
  What the stem of a segment is, without reference to \<open>stem\<close>: a segment that is \<^verbatim>\<open>..\<close> or
  has no period behind its first character is returned as it is; any other segment is
  returned without its last period and what follows it.
\<close>

lemma split_slash_free: "s \<in> set (split_slash p) \<Longrightarrow> c \<in> set s \<Longrightarrow> \<not> is_dir_sep c"
proof (induction p arbitrary: s)
  case Nil
  then show ?case by simp
next
  case (Cons a p)
  show ?case
  proof (cases "a = CHR ''/''")
    case True
    with Cons.prems(1) have "s = [] \<or> s \<in> set (split_slash p)" by simp
    with Cons.prems(2) have "s \<in> set (split_slash p)" by auto
    then show ?thesis using Cons.prems(2) by (rule Cons.IH)
  next
    case False
    obtain x xs where x: "split_slash p = x # xs"
      using split_slash_not_Nil [of p] by (cases "split_slash p") simp_all
    with False Cons.prems(1) have "s = a # x \<or> s \<in> set xs" by simp
    then show ?thesis
    proof
      assume s: "s = a # x"
      show ?thesis
      proof (cases "c = a")
        case True
        with False show ?thesis by (simp add: is_dir_sep_def)
      next
        case ne: False
        with s Cons.prems(2) have "c \<in> set x" by simp
        moreover have "x \<in> set (split_slash p)" by (simp add: x)
        ultimately show ?thesis by (intro Cons.IH)
      qed
    next
      assume "s \<in> set xs"
      then have "s \<in> set (split_slash p)" by (simp add: x)
      then show ?thesis using Cons.prems(2) by (rule Cons.IH)
    qed
  qed
qed

lemma segments_elements:
  assumes "s \<in> set (segments p)"
  shows "s \<noteq> []" "\<forall>c\<in>set s. \<not> is_dir_sep c"
proof -
  from assms show "s \<noteq> []" by (simp add: segments_def)
  from assms have "s \<in> set (split_slash p)" by (simp add: segments_def)
  then show "\<forall>c\<in>set s. \<not> is_dir_sep c" by (blast dest: split_slash_free)
qed

lemma stem_segment:
  assumes "s \<in> set (segments p)"
  shows "stem s =
    (if s = ''..'' \<or> CHR ''.'' \<notin> set (tl s) then s
     else rev (tl (dropWhile (\<lambda>c. c \<noteq> CHR ''.'') (rev s))))"
proof -
  from segments_elements [OF assms] have "filename s = s"
    by (intro has_filename_name) simp_all
  then show ?thesis by (auto simp: stem_def)
qed

lemma last_period_split:
  assumes "CHR ''.'' \<in> set s"
  shows "\<exists>ext. s = rev (tl (dropWhile (\<lambda>c. c \<noteq> CHR ''.'') (rev s))) @ ''.'' @ ext \<and>
     CHR ''.'' \<notin> set ext"
proof -
  let ?P = "\<lambda>c. c \<noteq> CHR ''.''"
  from assms have ne: "dropWhile ?P (rev s) \<noteq> []" by auto
  then have "hd (dropWhile ?P (rev s)) = CHR ''.''"
    using hd_dropWhile [of ?P "rev s"] by simp
  with ne obtain rest where d: "dropWhile ?P (rev s) = CHR ''.'' # rest"
    by (cases "dropWhile ?P (rev s)") simp_all
  have "rev s = takeWhile ?P (rev s) @ dropWhile ?P (rev s)"
    by (simp only: takeWhile_dropWhile_id)
  then have "rev s = takeWhile ?P (rev s) @ CHR ''.'' # rest"
    by (simp only: d)
  then have "rev (rev s) = rev (takeWhile ?P (rev s) @ CHR ''.'' # rest)"
    by (rule arg_cong)
  then have "s = rev rest @ ''.'' @ rev (takeWhile ?P (rev s))"
    by simp
  moreover have "CHR ''.'' \<notin> set (rev (takeWhile ?P (rev s)))"
    by (auto dest: set_takeWhileD)
  moreover have "tl (dropWhile ?P (rev s)) = rest" by (simp only: d list.sel)
  ultimately show ?thesis by metis
qed

lemma getNthStringFromPath_stripped:
  assumes "getNthStringFromPath path index result = (True, r)"
  shows "(segments path ! nat (sint index) = ''..'' \<or>
          CHR ''.'' \<notin> set (tl (segments path ! nat (sint index))) \<longrightarrow>
            r = segments path ! nat (sint index)) \<and>
         (segments path ! nat (sint index) \<noteq> ''..'' \<and>
          CHR ''.'' \<in> set (tl (segments path ! nat (sint index))) \<longrightarrow>
            (\<exists>ext. segments path ! nat (sint index) = r @ ''.'' @ ext \<and> CHR ''.'' \<notin> set ext))"
proof -
  let ?s = "segments path ! nat (sint index)"
  from assms have i: "0 \<le> sint index" "sint index < int (length (segments path))"
    and r: "r = stem ?s"
    by (simp_all add: getNthStringFromPath_eq split: if_splits)
  from i have "?s \<in> set (segments path)" by (intro nth_mem) simp
  note st = stem_segment [OF this]
  show ?thesis
  proof (intro conjI impI)
    assume "?s = ''..'' \<or> CHR ''.'' \<notin> set (tl ?s)"
    with st r show "r = ?s" by simp
  next
    assume a: "?s \<noteq> ''..'' \<and> CHR ''.'' \<in> set (tl ?s)"
    then have "CHR ''.'' \<in> set ?s" by (cases ?s) auto
    from last_period_split [OF this] a st r
    show "\<exists>ext. ?s = r @ ''.'' @ ext \<and> CHR ''.'' \<notin> set ext" by simp
  qed
qed

lemma segments_host0:
  "segments ''/xyz/openbmc_project/state/host0'' = [''xyz'', ''openbmc_project'', ''state'', ''host0'']"
  by code_simp

lemma stem_state: "stem ''state'' = ''state''"
  by code_simp

lemma segments_image:
  "segments ''/xyz/openbmc_project/software/image.bin'' =
     [''xyz'', ''openbmc_project'', ''software'', ''image.bin'']"
  by code_simp

lemma segments_tar: "segments ''/a/b.tar.gz'' = [''a'', ''b.tar.gz'']"
  by code_simp

lemma segments_profile: "segments ''/home/.profile'' = [''home'', ''.profile'']"
  by code_simp

lemma stem_examples:
  "stem ''image.bin'' = ''image''" "stem ''b.tar.gz'' = ''b.tar''" "stem ''.profile'' = ''.profile''"
  by code_simp+

text \<open>
  C5. \<open>getNthStringFromPath\<close> cuts the path into its non-empty segments, in order. It fails
  when the index is negative or not below the number of segments, and otherwise succeeds with
  the stem of the segment at that index: the segment itself when it is \<^verbatim>\<open>..\<close> or has no period
  behind its first character, and otherwise the segment without its last period and the
  extension behind it. On \<^verbatim>\<open>/xyz/openbmc_project/state/host0\<close> index 2 succeeds with
  \<^verbatim>\<open>state\<close> and index 9 fails; \<^verbatim>\<open>image.bin\<close> gives \<^verbatim>\<open>image\<close>, \<^verbatim>\<open>b.tar.gz\<close> gives \<^verbatim>\<open>b.tar\<close> and
  \<^verbatim>\<open>.profile\<close> stays as it is.
\<close>

theorem getNthStringFromPath_segments:
  "getNthStringFromPath path index result =
     (if sint index < 0 \<or> int (length (segments path)) \<le> sint index then (False, result)
      else (True, stem (segments path ! nat (sint index)))) \<and>
   (\<forall>r. getNthStringFromPath path index result = (True, r) \<longrightarrow>
      (segments path ! nat (sint index) = ''..'' \<or>
       CHR ''.'' \<notin> set (tl (segments path ! nat (sint index))) \<longrightarrow>
         r = segments path ! nat (sint index)) \<and>
      (segments path ! nat (sint index) \<noteq> ''..'' \<and>
       CHR ''.'' \<in> set (tl (segments path ! nat (sint index))) \<longrightarrow>
         (\<exists>ext. segments path ! nat (sint index) = r @ ''.'' @ ext \<and> CHR ''.'' \<notin> set ext))) \<and>
   getNthStringFromPath ''/xyz/openbmc_project/state/host0'' 2 result = (True, ''state'') \<and>
   fst (getNthStringFromPath ''/xyz/openbmc_project/state/host0'' 9 result) = False \<and>
   getNthStringFromPath ''/xyz/openbmc_project/software/image.bin'' 3 result = (True, ''image'') \<and>
   getNthStringFromPath ''/a/b.tar.gz'' 1 result = (True, ''b.tar'') \<and>
   getNthStringFromPath ''/home/.profile'' 1 result = (True, ''.profile'')"
proof (intro conjI allI)
  show "getNthStringFromPath path index result =
     (if sint index < 0 \<or> int (length (segments path)) \<le> sint index then (False, result)
      else (True, stem (segments path ! nat (sint index))))"
    by (rule getNthStringFromPath_eq)
  show "getNthStringFromPath path index result = (True, r) \<longrightarrow>
      (segments path ! nat (sint index) = ''..'' \<or>
       CHR ''.'' \<notin> set (tl (segments path ! nat (sint index))) \<longrightarrow>
         r = segments path ! nat (sint index)) \<and>
      (segments path ! nat (sint index) \<noteq> ''..'' \<and>
       CHR ''.'' \<in> set (tl (segments path ! nat (sint index))) \<longrightarrow>
         (\<exists>ext. segments path ! nat (sint index) = r @ ''.'' @ ext \<and> CHR ''.'' \<notin> set ext))" for r
    using getNthStringFromPath_stripped [of path index result r] by blast
  show "getNthStringFromPath ''/xyz/openbmc_project/state/host0'' 2 result = (True, ''state'')"
    by (simp add: getNthStringFromPath_eq segments_host0 stem_state)
  show "fst (getNthStringFromPath ''/xyz/openbmc_project/state/host0'' 9 result) = False"
    by (simp add: getNthStringFromPath_eq segments_host0)
  show "getNthStringFromPath ''/xyz/openbmc_project/software/image.bin'' 3 result = (True, ''image'')"
    by (simp add: getNthStringFromPath_eq segments_image stem_examples)
  show "getNthStringFromPath ''/a/b.tar.gz'' 1 result = (True, ''b.tar'')"
    by (simp add: getNthStringFromPath_eq segments_tar stem_examples)
  show "getNthStringFromPath ''/home/.profile'' 1 result = (True, ''.profile'')"
    by (simp add: getNthStringFromPath_eq segments_profile stem_examples)
qed

theorem getNthStringFromPath_segments_witness:
  "getNthStringFromPath ''/a/b.tar.gz'' 1 ''before'' = (True, ''b.tar'') \<and>
   segments ''/a/b.tar.gz'' ! 1 = ''b.tar.gz'' \<and>
   (\<exists>ext. ''b.tar.gz'' = ''b.tar'' @ ''.'' @ ext \<and> CHR ''.'' \<notin> set ext)"
proof -
  note t = getNthStringFromPath_segments [of "''/a/b.tar.gz''" 1 "''before''"]
  from t have h: "getNthStringFromPath ''/a/b.tar.gz'' 1 ''before'' = (True, ''b.tar'')"
    by blast
  have s: "segments ''/a/b.tar.gz'' ! nat (sint (1 :: int32)) = ''b.tar.gz''"
    by (simp add: segments_tar)
  from t h have "segments ''/a/b.tar.gz'' ! nat (sint (1 :: int32)) \<noteq> ''..'' \<and>
       CHR ''.'' \<in> set (tl (segments ''/a/b.tar.gz'' ! nat (sint (1 :: int32)))) \<longrightarrow>
       (\<exists>ext. segments ''/a/b.tar.gz'' ! nat (sint (1 :: int32)) = ''b.tar'' @ ''.'' @ ext \<and>
          CHR ''.'' \<notin> set ext)"
    by blast
  then have "\<exists>ext. ''b.tar.gz'' = ''b.tar'' @ ''.'' @ ext \<and> CHR ''.'' \<notin> set ext"
    unfolding s by simp
  with h s show ?thesis by simp
qed

text \<open>
  C10. Whenever \<open>getNthStringFromPath\<close> returns false, the index is negative or not below
  the number of non-empty segments, and \<open>result\<close> holds what it held before the call.
\<close>

theorem getNthStringFromPath_false_keeps_result:
  "\<not> fst (getNthStringFromPath path index result) \<Longrightarrow>
     snd (getNthStringFromPath path index result) = result \<and>
     (sint index < 0 \<or> int (length (segments path)) \<le> sint index)"
  by (simp add: getNthStringFromPath_eq split: if_splits)

theorem getNthStringFromPath_false_keeps_result_witness:
  "\<not> fst (getNthStringFromPath ''/xyz/openbmc_project/state/host0'' 9 ''before'') \<and>
   snd (getNthStringFromPath ''/xyz/openbmc_project/state/host0'' 9 ''before'') = ''before''"
proof -
  have h: "\<not> fst (getNthStringFromPath ''/xyz/openbmc_project/state/host0'' 9 ''before'')"
    by (simp add: getNthStringFromPath_eq segments_host0)
  from getNthStringFromPath_false_keeps_result [OF h] h show ?thesis by simp
qed

section \<open>Properties of the gateway and the resolver\<close>

subsection \<open>Schedules and the states of one invocation\<close>

lemma run_Nil: "run b [] st = st"
  by (simp add: run_def)

lemma run_Cons: "run b (i # schedule) st = run b schedule (deliver b i st)"
  by (simp add: run_def)

lemma deliver_out_of_range: "length (pending st) \<le> i \<Longrightarrow> deliver b i st = st"
  by (simp add: deliver_def)

lemma run_idle: "pending st = [] \<Longrightarrow> run b schedule st = st"
  by (induction schedule) (simp_all add: run_Nil run_Cons deliver_out_of_range)

lemma run_invariant:
  assumes "P st" and "\<And>s i. P s \<Longrightarrow> P (deliver b i s)"
  shows "P (run b schedule st)"
  using assms(1)
proof (induction schedule arbitrary: st)
  case Nil
  then show ?case by (simp add: run_Nil)
next
  case (Cons i schedule)
  from Cons.prems have "P (deliver b i st)" by (rule assms(2))
  then show ?case unfolding run_Cons by (rule Cons.IH)
qed

lemma emplace_matching_filter:
  "emplace_matching S xs acc = acc @ filter (\<lambda>p. p \<in> S) xs"
  by (induction xs arbitrary: acc) simp_all

lemma start_state:
  "getAssociatedSubTreePaths A R d ifs Caller init = awaiting_endpoints A R d ifs"
  by (simp add: getAssociatedSubTreePaths_def getAssociationEndPoints_def getProperty_def
      init_def awaiting_endpoints_def endpoints_request_def)

lemma endpoints_delivery:
  assumes "reply_Paths b (endpoints_request A) = (ec, eps)"
  shows "deliver b 0 (awaiting_endpoints A R d ifs) =
    (if ec \<noteq> 0 \<or> eps = []
     then \<lparr>trace = [Call (endpoints_request A), Reply (endpoints_request A), PathsResult ec []],
           pending = []\<rparr>
     else awaiting_subtree A eps R d ifs)"
  using assms
  by (simp add: deliver_def awaiting_endpoints_def awaiting_subtree_def
      validateAssociatedSubTreePaths_def getSubTreePaths_def async_method_call_def
      subtree_paths_request_def)

lemma subtree_delivery:
  assumes "reply_Paths b (subtree_paths_request R d ifs) = (ec, paths)"
  shows "deliver b 0 (awaiting_subtree A eps R d ifs) =
    \<lparr>trace = [Call (endpoints_request A), Reply (endpoints_request A),
              Call (subtree_paths_request R d ifs), Reply (subtree_paths_request R d ifs),
              PathsResult ec (if ec \<noteq> 0 \<or> paths = [] then []
                              else sort (filter (\<lambda>p. p \<in> set eps) paths))],
     pending = []\<rparr>"
  using assms
  by (simp add: deliver_def awaiting_subtree_def emplace_matching_filter)

lemma endpoints_delivery':
  assumes "reply_Paths b (endpoints_request A) = (ec, eps)"
  shows "deliver b 0 (awaiting_endpoints A R d ifs) =
    (if ec \<noteq> 0 \<or> eps = [] then endpoints_done A ec else awaiting_subtree A eps R d ifs)"
  using endpoints_delivery [OF assms] by (simp add: endpoints_done_def finished_def)

lemma subtree_delivery':
  assumes "reply_Paths b (subtree_paths_request R d ifs) = (ec, paths)"
  shows "deliver b 0 (awaiting_subtree A eps R d ifs) = subtree_done A R d ifs ec (merged ec eps paths)"
  using subtree_delivery [OF assms] by (simp add: subtree_done_def finished_def merged_def)

lemma deliver_finished: "deliver b i (finished tr) = finished tr"
  by (simp add: deliver_out_of_range finished_def)

lemma deliver_awaiting_endpoints_later:
  "0 < i \<Longrightarrow> deliver b i (awaiting_endpoints A R d ifs) = awaiting_endpoints A R d ifs"
  by (simp add: deliver_out_of_range awaiting_endpoints_def)

lemma deliver_awaiting_subtree_later:
  "0 < i \<Longrightarrow> deliver b i (awaiting_subtree A eps R d ifs) = awaiting_subtree A eps R d ifs"
  by (simp add: deliver_out_of_range awaiting_subtree_def)

lemma pipeline_step:
  assumes "reply_Paths b (endpoints_request A) = (ec, eps)"
    and "reply_Paths b (subtree_paths_request R d ifs) = (ec2, paths)"
    and "s \<in> pipeline_states A R d ifs ec eps ec2 paths"
  shows "deliver b i s \<in> pipeline_states A R d ifs ec eps ec2 paths"
proof (cases "i = 0")
  case True
  with assms(3) show ?thesis
    by (auto simp: pipeline_states_def endpoints_delivery' [OF assms(1)]
        subtree_delivery' [OF assms(2)] endpoints_done_def subtree_done_def deliver_finished
        split: if_splits)
next
  case False
  with assms(3) show ?thesis
    by (auto simp: pipeline_states_def deliver_awaiting_endpoints_later
        deliver_awaiting_subtree_later endpoints_done_def subtree_done_def deliver_finished
        split: if_splits)
qed

lemma pipeline_reachable:
  assumes "reply_Paths b (endpoints_request A) = (ec, eps)"
    and "reply_Paths b (subtree_paths_request R d ifs) = (ec2, paths)"
  shows "run b schedule (getAssociatedSubTreePaths A R d ifs Caller init)
           \<in> pipeline_states A R d ifs ec eps ec2 paths"
proof (rule run_invariant)
  show "getAssociatedSubTreePaths A R d ifs Caller init \<in> pipeline_states A R d ifs ec eps ec2 paths"
    by (simp add: start_state pipeline_states_def)
  show "deliver b i s \<in> pipeline_states A R d ifs ec eps ec2 paths"
    if "s \<in> pipeline_states A R d ifs ec eps ec2 paths" for s i
    using assms that by (rule pipeline_step)
qed





lemma example_bus_replies:
  "reply_Paths (example_bus r0 r1 r2) (endpoints_request A) = r1"
  "reply_Paths (example_bus r0 r1 r2) (subtree_paths_request R d ifs) = r2"
  by (simp_all add: example_bus_def endpoints_request_def subtree_paths_request_def)

subsection \<open>The gateway\<close>

text \<open>
  C6. For every path, \<open>checkDbusPathExists\<close> issues \<^verbatim>\<open>GetObject\<close> on the mapper with the
  path and an empty interface filter, and once the reply is delivered its callback is called
  once, with true exactly when the call brought no error code and the list of (service,
  interfaces) entries is not empty, and with false otherwise.
\<close>

theorem checkDbusPathExists_reports:
  "run b (0 # schedule) (checkDbusPathExists path init) =
     \<lparr>trace =
        [Call (MethodCall ''xyz.openbmc_project.ObjectMapper'' ''/xyz/openbmc_project/object_mapper''
                 ''xyz.openbmc_project.ObjectMapper'' ''GetObject'' [Str path, StrArray []]),
         Reply (MethodCall ''xyz.openbmc_project.ObjectMapper'' ''/xyz/openbmc_project/object_mapper''
                 ''xyz.openbmc_project.ObjectMapper'' ''GetObject'' [Str path, StrArray []]),
         ExistsResult
           (fst (reply_GetObject b
                  (MethodCall ''xyz.openbmc_project.ObjectMapper'' ''/xyz/openbmc_project/object_mapper''
                     ''xyz.openbmc_project.ObjectMapper'' ''GetObject'' [Str path, StrArray []])) = 0 \<and>
            snd (reply_GetObject b
                  (MethodCall ''xyz.openbmc_project.ObjectMapper'' ''/xyz/openbmc_project/object_mapper''
                     ''xyz.openbmc_project.ObjectMapper'' ''GetObject'' [Str path, StrArray []])) \<noteq> [])],
      pending = []\<rparr>"
proof -
  let ?req = "MethodCall ''xyz.openbmc_project.ObjectMapper'' ''/xyz/openbmc_project/object_mapper''
                 ''xyz.openbmc_project.ObjectMapper'' ''GetObject'' [Str path, StrArray []]"
  have "deliver b 0 (checkDbusPathExists path init) =
      finished [Call ?req, Reply ?req,
        ExistsResult (fst (reply_GetObject b ?req) = 0 \<and> snd (reply_GetObject b ?req) \<noteq> [])]"
    by (simp add: deliver_def checkDbusPathExists_def async_method_call_def init_def finished_def
        split: prod.splits)
  then show ?thesis by (simp add: run_Cons run_idle finished_def)
qed

text \<open>
  C7. Every remote operation addresses the service \<^verbatim>\<open>xyz.openbmc_project.ObjectMapper\<close>, the
  object path \<^verbatim>\<open>/xyz/openbmc_project/object_mapper\<close> and the interface
  \<^verbatim>\<open>xyz.openbmc_project.ObjectMapper\<close>, except the read of the association endpoints: it reads
  the property \<^verbatim>\<open>endpoints\<close> of the interface \<^verbatim>\<open>xyz.openbmc_project.Association\<close> at the
  association's own object path, on the same service name.
\<close>

theorem mapper_addresses:
  "trace (checkDbusPathExists path st) = trace st @
     [Call (MethodCall ''xyz.openbmc_project.ObjectMapper'' ''/xyz/openbmc_project/object_mapper''
              ''xyz.openbmc_project.ObjectMapper'' ''GetObject'' [Str path, StrArray []])] \<and>
   trace (getSubTree path depth interfaces st) = trace st @
     [Call (MethodCall ''xyz.openbmc_project.ObjectMapper'' ''/xyz/openbmc_project/object_mapper''
              ''xyz.openbmc_project.ObjectMapper'' ''GetSubTree''
              [Str path, Int32 depth, StrArray interfaces])] \<and>
   trace (getSubTreePaths path depth interfaces callback st) = trace st @
     [Call (MethodCall ''xyz.openbmc_project.ObjectMapper'' ''/xyz/openbmc_project/object_mapper''
              ''xyz.openbmc_project.ObjectMapper'' ''GetSubTreePaths''
              [Str path, Int32 depth, StrArray interfaces])] \<and>
   trace (getAssociationEndPoints path callback st) = trace st @
     [Call (GetProperty ''xyz.openbmc_project.ObjectMapper'' path
              ''xyz.openbmc_project.Association'' ''endpoints'')]"
  by (simp add: checkDbusPathExists_def getSubTree_def getSubTreePaths_def
      getAssociationEndPoints_def async_method_call_def getProperty_def)

subsection \<open>The resolver\<close>

text \<open>
  C1. For every association path, root, depth and filter: when the read of the endpoints
  resolves with a failure status, or with success and no endpoint, then
  \<open>getAssociatedSubTreePaths\<close> calls its callback with exactly that status and an empty
  sequence of paths as soon as the reply is delivered, and nothing happens after that; under
  no schedule does a \<^verbatim>\<open>GetSubTreePaths\<close> request appear in the trace.
\<close>

theorem endpoint_stage_short_circuit:
  assumes "reply_Paths b (endpoints_request A) = (ec, eps)" and "ec \<noteq> 0 \<or> eps = []"
  shows "run b (0 # schedule) (getAssociatedSubTreePaths A R d ifs Caller init) =
           \<lparr>trace = [Call (endpoints_request A), Reply (endpoints_request A), PathsResult ec []],
            pending = []\<rparr> \<and>
         (\<forall>schedule'. \<not> list_ex is_GetSubTreePaths
            (trace (run b schedule' (getAssociatedSubTreePaths A R d ifs Caller init))))"
proof (intro conjI allI)
  from assms have "deliver b 0 (awaiting_endpoints A R d ifs) = endpoints_done A ec"
    by (simp add: endpoints_delivery')
  then show "run b (0 # schedule) (getAssociatedSubTreePaths A R d ifs Caller init) =
      \<lparr>trace = [Call (endpoints_request A), Reply (endpoints_request A), PathsResult ec []],
       pending = []\<rparr>"
    by (simp add: run_Cons start_state endpoints_done_def finished_def run_idle)
next
  fix schedule'
  obtain ec2 paths where "reply_Paths b (subtree_paths_request R d ifs) = (ec2, paths)"
    by (cases "reply_Paths b (subtree_paths_request R d ifs)")
  from pipeline_reachable [OF assms(1) this, of schedule'] assms(2)
  have "run b schedule' (getAssociatedSubTreePaths A R d ifs Caller init)
          \<in> {awaiting_endpoints A R d ifs, endpoints_done A ec}"
    by (simp add: pipeline_states_def)
  then show "\<not> list_ex is_GetSubTreePaths
      (trace (run b schedule' (getAssociatedSubTreePaths A R d ifs Caller init)))"
    by (auto simp: awaiting_endpoints_def endpoints_done_def finished_def endpoints_request_def)
qed

theorem endpoint_stage_short_circuit_witness:
  "run (example_bus (0, []) (0, []) (0, [''/inv/sys/fan0''])) [0, 0]
     (getAssociatedSubTreePaths ''/assoc'' ''/inv'' 0 [] Caller init) =
     \<lparr>trace = [Call (endpoints_request ''/assoc''), Reply (endpoints_request ''/assoc''),
               PathsResult 0 []], pending = []\<rparr> \<and>
   run (example_bus (0, []) (113, [''/inv/sys/fan0'']) (0, [''/inv/sys/fan0''])) [0, 0]
     (getAssociatedSubTreePaths ''/assoc'' ''/inv'' 0 [] Caller init) =
     \<lparr>trace = [Call (endpoints_request ''/assoc''), Reply (endpoints_request ''/assoc''),
               PathsResult 113 []], pending = []\<rparr>"
proof -
  have 1: "reply_Paths (example_bus (0, []) (0, []) (0, [''/inv/sys/fan0'']))
      (endpoints_request ''/assoc'') = (0, [])" "(0::int) \<noteq> 0 \<or> ([]::string list) = []"
    by (simp_all add: example_bus_replies)
  have 2: "reply_Paths (example_bus (0, []) (113, [''/inv/sys/fan0'']) (0, [''/inv/sys/fan0'']))
      (endpoints_request ''/assoc'') = (113, [''/inv/sys/fan0''])"
    "(113::int) \<noteq> 0 \<or> [''/inv/sys/fan0''] = []"
    by (simp_all add: example_bus_replies)
  from endpoint_stage_short_circuit [OF 1, of "[0]" "''/inv''" 0 "[]"]
    endpoint_stage_short_circuit [OF 2, of "[0]" "''/inv''" 0 "[]"]
  show ?thesis by simp
qed

text \<open>
  C2. For every invocation that reaches the subtree stage (the endpoints were read with
  success and are not empty): when \<^verbatim>\<open>GetSubTreePaths\<close> resolves with a failure status, or with
  success and no path, the callback is called with that same status, also when it is
  success, and an empty sequence of paths; nothing of the endpoints enters the result.
\<close>

theorem subtree_stage_short_circuit:
  assumes "reply_Paths b (endpoints_request A) = (0, eps)" and "eps \<noteq> []"
    and "reply_Paths b (subtree_paths_request R d ifs) = (ec, paths)"
    and "ec \<noteq> 0 \<or> paths = []"
  shows "run b (0 # 0 # schedule) (getAssociatedSubTreePaths A R d ifs Caller init) =
           \<lparr>trace = [Call (endpoints_request A), Reply (endpoints_request A),
                     Call (subtree_paths_request R d ifs), Reply (subtree_paths_request R d ifs),
                     PathsResult ec []],
            pending = []\<rparr>"
proof -
  from assms(1,2) have "deliver b 0 (awaiting_endpoints A R d ifs) = awaiting_subtree A eps R d ifs"
    by (simp add: endpoints_delivery')
  moreover from assms(3,4) have "deliver b 0 (awaiting_subtree A eps R d ifs) =
      subtree_done A R d ifs ec []"
    by (simp add: subtree_delivery' merged_def)
  ultimately show ?thesis
    by (simp add: run_Cons start_state subtree_done_def finished_def run_idle)
qed

theorem subtree_stage_short_circuit_witness:
  "run (example_bus (0, []) (0, [''/inv/sys/fan0'']) (0, [])) [0, 0]
     (getAssociatedSubTreePaths ''/assoc'' ''/inv'' 0 [] Caller init) =
     \<lparr>trace = [Call (endpoints_request ''/assoc''), Reply (endpoints_request ''/assoc''),
               Call (subtree_paths_request ''/inv'' 0 []), Reply (subtree_paths_request ''/inv'' 0 []),
               PathsResult 0 []], pending = []\<rparr> \<and>
   run (example_bus (0, []) (0, [''/inv/sys/fan0'']) (5, [''/inv/sys/fan0''])) [0, 0]
     (getAssociatedSubTreePaths ''/assoc'' ''/inv'' 0 [] Caller init) =
     \<lparr>trace = [Call (endpoints_request ''/assoc''), Reply (endpoints_request ''/assoc''),
               Call (subtree_paths_request ''/inv'' 0 []), Reply (subtree_paths_request ''/inv'' 0 []),
               PathsResult 5 []], pending = []\<rparr>"
proof -
  have 1: "reply_Paths (example_bus (0, []) (0, [''/inv/sys/fan0'']) (0, []))
      (endpoints_request ''/assoc'') = (0, [''/inv/sys/fan0''])" "[''/inv/sys/fan0''] \<noteq> []"
    "reply_Paths (example_bus (0, []) (0, [''/inv/sys/fan0'']) (0, []))
      (subtree_paths_request ''/inv'' 0 []) = (0, [])" "(0::int) \<noteq> 0 \<or> ([]::string list) = []"
    by (simp_all add: example_bus_replies)
  have 2: "reply_Paths (example_bus (0, []) (0, [''/inv/sys/fan0'']) (5, [''/inv/sys/fan0'']))
      (endpoints_request ''/assoc'') = (0, [''/inv/sys/fan0''])" "[''/inv/sys/fan0''] \<noteq> []"
    "reply_Paths (example_bus (0, []) (0, [''/inv/sys/fan0'']) (5, [''/inv/sys/fan0'']))
      (subtree_paths_request ''/inv'' 0 []) = (5, [''/inv/sys/fan0''])"
    "(5::int) \<noteq> 0 \<or> [''/inv/sys/fan0''] = []"
    by (simp_all add: example_bus_replies)
  from subtree_stage_short_circuit [OF 1, of "[]"] subtree_stage_short_circuit [OF 2, of "[]"]
  show ?thesis by simp
qed

text \<open>
  The result is not strictly ascending when the reply to \<^verbatim>\<open>GetSubTreePaths\<close> names a path
  twice: the loop appends a path once for each time the reply names it, and sorting keeps
  both. Both stages succeed here, with the endpoint \<^verbatim>\<open>/inv/sys/fan0\<close> and that path twice
  in the subtree reply.
\<close>

theorem associated_paths_duplicates_counterexample:
  "reply_Paths (example_bus (0, []) (0, [''/inv/sys/fan0'']) (0, [''/inv/sys/fan0'', ''/inv/sys/fan0'']))
     (endpoints_request ''/assoc'') = (0, [''/inv/sys/fan0'']) \<and>
   reply_Paths (example_bus (0, []) (0, [''/inv/sys/fan0'']) (0, [''/inv/sys/fan0'', ''/inv/sys/fan0'']))
     (subtree_paths_request ''/inv'' 0 []) = (0, [''/inv/sys/fan0'', ''/inv/sys/fan0'']) \<and>
   run (example_bus (0, []) (0, [''/inv/sys/fan0'']) (0, [''/inv/sys/fan0'', ''/inv/sys/fan0''])) [0, 0]
     (getAssociatedSubTreePaths ''/assoc'' ''/inv'' 0 [] Caller init) =
     \<lparr>trace = [Call (endpoints_request ''/assoc''), Reply (endpoints_request ''/assoc''),
               Call (subtree_paths_request ''/inv'' 0 []), Reply (subtree_paths_request ''/inv'' 0 []),
               PathsResult 0 [''/inv/sys/fan0'', ''/inv/sys/fan0'']], pending = []\<rparr> \<and>
   \<not> sorted_wrt (<) [''/inv/sys/fan0'', ''/inv/sys/fan0''] \<and>
   \<not> distinct [''/inv/sys/fan0'', ''/inv/sys/fan0'']"
proof -
  let ?b = "example_bus (0, []) (0, [''/inv/sys/fan0'']) (0, [''/inv/sys/fan0'', ''/inv/sys/fan0''])"
  have "deliver ?b 0 (awaiting_endpoints ''/assoc'' ''/inv'' 0 []) =
      awaiting_subtree ''/assoc'' [''/inv/sys/fan0''] ''/inv'' 0 []"
    by (simp add: endpoints_delivery' [of _ _ 0 "[''/inv/sys/fan0'']"] example_bus_replies)
  moreover have "deliver ?b 0 (awaiting_subtree ''/assoc'' [''/inv/sys/fan0''] ''/inv'' 0 []) =
      subtree_done ''/assoc'' ''/inv'' 0 [] 0 [''/inv/sys/fan0'', ''/inv/sys/fan0'']"
    by (simp add: subtree_delivery' [of _ _ _ _ 0 "[''/inv/sys/fan0'', ''/inv/sys/fan0'']"]
        example_bus_replies merged_def)
  ultimately show ?thesis
    by (simp add: run_Cons run_Nil start_state subtree_done_def finished_def example_bus_replies)
qed

text \<open>
  C3, amended. For all association paths and roots, when both stages succeed with non-empty
  intermediate results, the sequence delivered by \<open>getAssociatedSubTreePaths\<close> is the
  subtree-paths reply restricted to the paths of the endpoint set, sorted: it is ascending
  in lexicographic string order, a path appears in it if and only if it appears both in the
  subtree-paths reply and in the endpoint set, and it is strictly ascending with no
  duplicate whenever the subtree-paths reply names no path twice.
\<close>

theorem associated_paths_sorted_intersection:
  assumes "reply_Paths b (endpoints_request A) = (0, eps)" and "eps \<noteq> []"
    and "reply_Paths b (subtree_paths_request R d ifs) = (0, paths)" and "paths \<noteq> []"
  shows "\<exists>res. run b (0 # 0 # schedule) (getAssociatedSubTreePaths A R d ifs Caller init) =
           \<lparr>trace = [Call (endpoints_request A), Reply (endpoints_request A),
                     Call (subtree_paths_request R d ifs), Reply (subtree_paths_request R d ifs),
                     PathsResult 0 res],
            pending = []\<rparr> \<and>
          res = sort (filter (\<lambda>p. p \<in> set eps) paths) \<and>
          sorted res \<and>
          (\<forall>p. p \<in> set res \<longleftrightarrow> p \<in> set paths \<and> p \<in> set eps) \<and>
          (distinct paths \<longrightarrow> sorted_wrt (<) res \<and> distinct res)"
proof -
  let ?res = "sort (filter (\<lambda>p. p \<in> set eps) paths)"
  from assms(1,2) have "deliver b 0 (awaiting_endpoints A R d ifs) = awaiting_subtree A eps R d ifs"
    by (simp add: endpoints_delivery')
  moreover from assms(3,4) have "deliver b 0 (awaiting_subtree A eps R d ifs) =
      subtree_done A R d ifs 0 ?res"
    by (simp add: subtree_delivery' merged_def)
  ultimately have "run b (0 # 0 # schedule) (getAssociatedSubTreePaths A R d ifs Caller init) =
      \<lparr>trace = [Call (endpoints_request A), Reply (endpoints_request A),
                Call (subtree_paths_request R d ifs), Reply (subtree_paths_request R d ifs),
                PathsResult 0 ?res],
       pending = []\<rparr>"
    by (simp add: run_Cons start_state subtree_done_def finished_def run_idle)
  moreover have "sorted ?res" by simp
  moreover have "\<forall>p. p \<in> set ?res \<longleftrightarrow> p \<in> set paths \<and> p \<in> set eps" by auto
  moreover have "distinct paths \<longrightarrow> sorted_wrt (<) ?res \<and> distinct ?res"
    by (simp add: strict_sorted_iff)
  ultimately show ?thesis by blast
qed

theorem associated_paths_sorted_intersection_witness:
  "\<exists>res. run (example_bus (0, []) (0, [''/inv/sys/fan0'', ''/inv/sys/fan1''])
               (0, [''/inv/sys/fan0'', ''/inv/sys/psu0''])) [0, 0]
           (getAssociatedSubTreePaths ''/assoc'' ''/inv'' 0 [] Caller init) =
         \<lparr>trace = [Call (endpoints_request ''/assoc''), Reply (endpoints_request ''/assoc''),
                   Call (subtree_paths_request ''/inv'' 0 []), Reply (subtree_paths_request ''/inv'' 0 []),
                   PathsResult 0 res], pending = []\<rparr> \<and>
         res = [''/inv/sys/fan0''] \<and> sorted_wrt (<) res \<and> distinct res"
proof -
  let ?b = "example_bus (0, []) (0, [''/inv/sys/fan0'', ''/inv/sys/fan1''])
               (0, [''/inv/sys/fan0'', ''/inv/sys/psu0''])"
  have h: "reply_Paths ?b (endpoints_request ''/assoc'') = (0, [''/inv/sys/fan0'', ''/inv/sys/fan1''])"
    "[''/inv/sys/fan0'', ''/inv/sys/fan1''] \<noteq> []"
    "reply_Paths ?b (subtree_paths_request ''/inv'' 0 []) = (0, [''/inv/sys/fan0'', ''/inv/sys/psu0''])"
    "[''/inv/sys/fan0'', ''/inv/sys/psu0''] \<noteq> []"
    by (simp_all add: example_bus_replies)
  from associated_paths_sorted_intersection [OF h, of "[]"] show ?thesis by simp
qed



text \<open>
  C9. Within one invocation of \<open>getAssociatedSubTreePaths\<close>, under every schedule, a
  \<^verbatim>\<open>GetSubTreePaths\<close> request in the trace stands strictly behind the arrival of the reply
  to the read of the endpoints.
\<close>

theorem subtree_query_follows_endpoint_reply:
  assumes "i < length (trace (run b schedule (getAssociatedSubTreePaths A R d ifs Caller init)))"
    and "is_GetSubTreePaths (trace (run b schedule (getAssociatedSubTreePaths A R d ifs Caller init)) ! i)"
  shows "\<exists>j<i. trace (run b schedule (getAssociatedSubTreePaths A R d ifs Caller init)) ! j =
           Reply (endpoints_request A)"
proof -
  obtain ec eps where e: "reply_Paths b (endpoints_request A) = (ec, eps)"
    by (cases "reply_Paths b (endpoints_request A)")
  obtain ec2 paths where p: "reply_Paths b (subtree_paths_request R d ifs) = (ec2, paths)"
    by (cases "reply_Paths b (subtree_paths_request R d ifs)")
  let ?tr = "trace (run b schedule (getAssociatedSubTreePaths A R d ifs Caller init))"
  let ?gp = "endpoints_request A" and ?sp = "subtree_paths_request R d ifs"
  from pipeline_reachable [OF e p, of schedule]
  consider "?tr = [Call ?gp]" | "?tr = [Call ?gp, Reply ?gp, PathsResult ec []]"
    | "?tr = [Call ?gp, Reply ?gp, Call ?sp]"
    | "?tr = [Call ?gp, Reply ?gp, Call ?sp, Reply ?sp, PathsResult ec2 (merged ec2 eps paths)]"
    by (auto simp: pipeline_states_def awaiting_endpoints_def awaiting_subtree_def
        endpoints_done_def subtree_done_def finished_def split: if_splits)
  then show ?thesis
  proof cases
    case 1
    with assms show ?thesis by (simp add: endpoints_request_def)
  next
    case 2
    with assms show ?thesis by (auto simp: endpoints_request_def less_Suc_eq numeral_3_eq_3)
  next
    case 3
    with assms have "i = 2" by (auto simp: endpoints_request_def less_Suc_eq numeral_3_eq_3 numeral_2_eq_2)
    with 3 show ?thesis by (intro exI [of _ 1]) simp
  next
    case 4
    with assms have "i = 2"
      by (auto simp: endpoints_request_def less_Suc_eq numeral_2_eq_2 eval_nat_numeral)
    with 4 show ?thesis by (intro exI [of _ 1]) simp
  qed
qed

theorem subtree_query_follows_endpoint_reply_witness:
  "2 < length (trace (run (example_bus (0, []) (0, [''/inv/sys/fan0'']) (0, [''/inv/sys/fan0''])) [0]
        (getAssociatedSubTreePaths ''/assoc'' ''/inv'' 0 [] Caller init))) \<and>
   is_GetSubTreePaths (trace (run (example_bus (0, []) (0, [''/inv/sys/fan0'']) (0, [''/inv/sys/fan0''])) [0]
        (getAssociatedSubTreePaths ''/assoc'' ''/inv'' 0 [] Caller init)) ! 2) \<and>
   (\<exists>j<2. trace (run (example_bus (0, []) (0, [''/inv/sys/fan0'']) (0, [''/inv/sys/fan0''])) [0]
        (getAssociatedSubTreePaths ''/assoc'' ''/inv'' 0 [] Caller init)) ! j =
      Reply (endpoints_request ''/assoc''))"
proof -
  let ?b = "example_bus (0, []) (0, [''/inv/sys/fan0'']) (0, [''/inv/sys/fan0''])"
  have "deliver ?b 0 (awaiting_endpoints ''/assoc'' ''/inv'' 0 []) =
      awaiting_subtree ''/assoc'' [''/inv/sys/fan0''] ''/inv'' 0 []"
    by (simp add: endpoints_delivery' [of _ _ 0 "[''/inv/sys/fan0'']"] example_bus_replies)
  then have tr: "trace (run ?b [0] (getAssociatedSubTreePaths ''/assoc'' ''/inv'' 0 [] Caller init)) =
      [Call (endpoints_request ''/assoc''), Reply (endpoints_request ''/assoc''),
       Call (subtree_paths_request ''/inv'' 0 [])]"
    by (simp add: run_Cons run_Nil start_state awaiting_subtree_def)
  have h: "2 < length (trace (run ?b [0] (getAssociatedSubTreePaths ''/assoc'' ''/inv'' 0 [] Caller init)))"
    "is_GetSubTreePaths (trace (run ?b [0] (getAssociatedSubTreePaths ''/assoc'' ''/inv'' 0 [] Caller init)) ! 2)"
    by (simp_all add: tr subtree_paths_request_def)
  from subtree_query_follows_endpoint_reply [OF h] h show ?thesis by blast
qed

end
